theory Spec2Isabelle
  imports Complex_Main "HOL-Library.AList" "HOL-Library.Multiset"
    "HOL-Library.Char_ord" "HOL-Library.List_Lexorder" "HOL-Library.Product_Lexorder"
begin

section \<open>Data model of \<^verbatim>\<open>schedule.py\<close>\<close>

text \<open>
  \<^verbatim>\<open>Match = Tuple[int, int]\<close>; a \<^verbatim>\<open>Stadium\<close> object has the fields \<^verbatim>\<open>id\<close> and
  \<^verbatim>\<open>name\<close>. A \<^verbatim>\<open>DaySchedule\<close> is a Python dict from stadium id to match: an
  association list in insertion order, where \<^verbatim>\<open>d[k] = v\<close> is \<open>AList.update\<close>
  (overwrite in place, or append a new key). A \<^verbatim>\<open>Schedule\<close> is a list of days.
\<close>

type_synonym Match = "int \<times> int"

record Stadium =
  stadium_id :: string
  stadium_name :: string

type_synonym DaySchedule = "(string \<times> Match) list"
type_synonym Schedule = "DaySchedule list"

datatype py_error = IndexError | KeyError

text \<open>Reading and writing a list at an index raises \<^verbatim>\<open>IndexError\<close> out of range.\<close>

definition list_get :: "'a list \<Rightarrow> nat \<Rightarrow> py_error + 'a" where
  "list_get xs i = (if i < length xs then Inr (xs ! i) else Inl IndexError)"


section \<open>The day-assignment generator\<close>

text \<open>
  \<^verbatim>\<open>itertools.permutations(arr, k)\<close>: the tuples of \<open>k\<close> elements taken at pairwise
  different positions of \<open>arr\<close>, in lexicographic order of the positions; no tuple when
  \<open>k\<close> exceeds the length, the empty tuple alone when \<open>k = 0\<close>.
\<close>

fun k_permutations :: "'a list \<Rightarrow> nat \<Rightarrow> 'a list list" where
  "k_permutations arr 0 = [[]]"
| "k_permutations arr (Suc k) =
     concat (map (\<lambda>i. map ((#) (arr ! i)) (k_permutations (take i arr @ drop (Suc i) arr) k))
                 [0..<length arr])"

text \<open>The inner loop \<^verbatim>\<open>for i, match in enumerate(block): day_sched[perm[i].id] = match\<close>.\<close>

definition day_sched_of :: "Stadium list \<Rightarrow> Match list \<Rightarrow> DaySchedule" where
  "day_sched_of perm block =
     fold (\<lambda>(i, match) day_sched. AList.update (stadium_id (perm ! i)) match day_sched)
          (List.enumerate 0 block) []"

definition generate_assignments :: "Match list \<Rightarrow> Stadium list \<Rightarrow> DaySchedule list" where
  "generate_assignments block stadiums =
     (if length block > length stadiums then []
      else map (\<lambda>perm. day_sched_of perm block) (k_permutations stadiums (length block)))"

section \<open>The schedule optimizer\<close>

text \<open>
  The innermost loop of \<^verbatim>\<open>get_optimizing_solution\<close>: every assignment of the block is
  put in front of \<^verbatim>\<open>dp[i + k]\<close>, and a candidate replaces \<^verbatim>\<open>best\<close> when there is none
  yet or when it is strictly shorter.
\<close>

definition try_candidate :: "Schedule \<Rightarrow> DaySchedule \<Rightarrow> Schedule option \<Rightarrow> Schedule option" where
  "try_candidate rest assignment best =
     (let candidate = [assignment] @ rest
      in case best of
           None \<Rightarrow> Some candidate
         | Some b \<Rightarrow> if length candidate < length b then Some candidate else Some b)"

text \<open>
  The loop \<^verbatim>\<open>for k in range(1, m + 1)\<close> with its \<^verbatim>\<open>break\<close> and \<^verbatim>\<open>continue\<close>; the
  index \<open>i\<close> is a natural number, as \<^verbatim>\<open>schedule_matches\<close> only passes
  \<^verbatim>\<open>range(n-1, -1, -1)\<close>. Reading \<^verbatim>\<open>dp[i + k]\<close> can raise.
\<close>

fun gos_loop :: "nat \<Rightarrow> Schedule option list \<Rightarrow> Match list \<Rightarrow> Stadium list \<Rightarrow>
    Schedule option \<Rightarrow> nat list \<Rightarrow> py_error + Schedule option" where
  "gos_loop i dp matches stadiums best [] = Inr best"
| "gos_loop i dp matches stadiums best (k # ks) =
     (if i + k > length matches then Inr best
      else let block = take k (drop i matches);
               day_assignments = generate_assignments block stadiums
           in if day_assignments = [] then gos_loop i dp matches stadiums best ks
              else case list_get dp (i + k) of
                     Inl e \<Rightarrow> Inl e
                   | Inr None \<Rightarrow> gos_loop i dp matches stadiums best ks
                   | Inr (Some rest) \<Rightarrow>
                       gos_loop i dp matches stadiums
                         (fold (try_candidate rest) day_assignments best) ks)"







section \<open>Prim's algorithm\<close>

text \<open>
  The weight table \<^verbatim>\<open>distances\<close> is a dict from pairs of stadium names to weights.
  Weights are real numbers here: the table of the repository holds integers, and the
  rounding of Python floats is not modelled. Strings are compared as Python compares them,
  character by character, a proper prefix being smaller. \<^verbatim>\<open>visited\<close> is a dict from stadium name to bool, again an association
  list. The heap holds triples \<^verbatim>\<open>(cost, from, to)\<close>, which Python compares
  lexicographically (numbers first, then the two strings); \<^verbatim>\<open>heapq.heappop\<close> removes
  and returns the least triple, so the heap is kept as the list of its items and the
  least item is taken out.
\<close>

type_synonym heap_item = "real \<times> string \<times> string"

record prim_state =
  visited :: "(string \<times> bool) list"
  min_heap :: "heap_item list"
  mst :: "(string \<times> string) list"
  total_cost :: real










section \<open>What a valid schedule is\<close>







section \<open>The graph of a weight table\<close>





text \<open>
  The stadiums visited so far, the state before the first iteration, and the sum of the
  weights of a list of edges.
\<close>

definition visited_set :: "prim_state \<Rightarrow> string set" where
  "visited_set st = {s. map_of (visited st) s = Some True}"

definition init_state :: "string list \<Rightarrow> prim_state" where
  "init_state stadiums =
     \<lparr>visited = fold (\<lambda>s v. AList.update s False v) stadiums [],
      min_heap = [(0, hd stadiums, hd stadiums)], mst = [], total_cost = 0\<rparr>"














section \<open>Counting the permutations\<close>

lemma length_concat_map_const:
  "(\<And>x. x \<in> set xs \<Longrightarrow> length (f x) = c) \<Longrightarrow> length (concat (map f xs)) = length xs * c"
  by (induction xs) auto

lemma length_k_permutations_fact:
  "k \<le> length arr \<Longrightarrow> length (k_permutations arr k) * fact (length arr - k) = fact (length arr)"
proof (induction k arbitrary: arr)
  case 0
  then show ?case by simp
next
  case (Suc k)
  let ?n = "length arr"
  let ?rm = "\<lambda>i. take i arr @ drop (Suc i) arr"
  have each: "length (map ((#) (arr ! i)) (k_permutations (?rm i) k)) * fact (?n - Suc k) = fact (?n - 1)"
    if "i \<in> set [0..<?n]" for i
  proof -
    from that have len: "length (?rm i) = ?n - 1" by auto
    with Suc.prems have "k \<le> length (?rm i)" by simp
    from Suc.IH [OF this] len show ?thesis by simp
  qed
  have "length (k_permutations arr (Suc k)) * fact (?n - Suc k) =
        (\<Sum>i\<leftarrow>[0..<?n]. length (map ((#) (arr ! i)) (k_permutations (?rm i) k)) * fact (?n - Suc k))"
    by (simp add: length_concat sum_list_mult_const [symmetric] comp_def del: upt_Suc)
  also have "\<dots> = (\<Sum>i\<leftarrow>[0..<?n]. fact (?n - 1))"
    using each by (intro arg_cong [where f = sum_list] map_cong) auto
  also have "\<dots> = ?n * fact (?n - 1)"
    by (simp add: sum_list_triv)
  also have "\<dots> = fact ?n"
    using Suc.prems by (cases ?n) auto
  finally show ?case .
qed

lemma k_permutations_too_long: "length arr < k \<Longrightarrow> k_permutations arr k = []"
proof (induction k arbitrary: arr)
  case 0
  then show ?case by simp
next
  case (Suc k)
  have "k_permutations (take i arr @ drop (Suc i) arr) k = []" if "i < length arr" for i
    using that Suc.prems by (intro Suc.IH) auto
  then show ?case by (auto simp del: upt_Suc)
qed

lemma length_k_permutations:
  "length (k_permutations arr k) =
     (if k \<le> length arr then fact (length arr) div fact (length arr - k) else 0)"
proof (cases "k \<le> length arr")
  case True
  have pos: "(fact (length arr - k) :: nat) > 0" by simp
  from length_k_permutations_fact [OF True]
  have "length (k_permutations arr k) = fact (length arr) div fact (length arr - k)"
    by (metis pos nonzero_mult_div_cancel_right less_numeral_extra(3))
  with True show ?thesis by simp
next
  case False
  then show ?thesis by (simp add: k_permutations_too_long)
qed

lemma k_permutations_nonempty: "k \<le> length arr \<Longrightarrow> k_permutations arr k \<noteq> []"
proof
  assume le: "k \<le> length arr" and "k_permutations arr k = []"
  with length_k_permutations_fact [OF le] have "(fact (length arr) :: nat) = 0" by simp
  then show False by simp
qed

lemma k_permutations_positions:
  "p \<in> set (k_permutations arr k) \<Longrightarrow>
   \<exists>js. length js = k \<and> distinct js \<and> set js \<subseteq> {..<length arr} \<and> p = map ((!) arr) js"
proof (induction k arbitrary: arr p)
  case 0
  then show ?case by simp
next
  case (Suc k)
  from Suc.prems obtain i q where i: "i < length arr" and p: "p = arr ! i # q"
    and q: "q \<in> set (k_permutations (take i arr @ drop (Suc i) arr) k)"
    by (auto simp del: upt_Suc)
  define rest where "rest = take i arr @ drop (Suc i) arr"
  define sh where "sh = (\<lambda>j. if j < i then j else Suc j)"
  from Suc.IH [OF q] obtain js where js: "length js = k" "distinct js"
    "set js \<subseteq> {..<length rest}" "q = map ((!) rest) js" unfolding rest_def by blast
  have len: "length rest = length arr - 1" using i by (auto simp: rest_def)
  have nth: "rest ! j = arr ! sh j" if "j < length rest" for j
  proof (cases "j < i")
    case True
    then show ?thesis using i by (simp add: rest_def sh_def nth_append)
  next
    case False
    then show ?thesis using i that len by (simp add: rest_def sh_def nth_append min_def)
  qed
  have inj: "inj sh" by (auto simp: inj_on_def sh_def split: if_splits)
  have ni: "sh j \<noteq> i" for j by (simp add: sh_def)
  have bound: "sh j < length arr" if "j < length rest" for j
    using that len i unfolding sh_def by (cases "j < i") auto
  have 1: "length (i # map sh js) = Suc k" using js by simp
  have 2: "distinct (i # map sh js)"
    using js(2) inj ni by (auto simp: distinct_map intro: inj_on_subset)
  have 3: "set (i # map sh js) \<subseteq> {..<length arr}"
    using js(3) i bound by auto
  have "map ((!) rest) js = map ((!) arr) (map sh js)"
    using js(3) nth by (auto simp: subset_iff)
  with p js(4) have 4: "p = map ((!) arr) (i # map sh js)" by simp
  from 1 2 3 4 show ?case by blast
qed

lemma k_permutations_distinct:
  "distinct (map f arr) \<Longrightarrow> p \<in> set (k_permutations arr k) \<Longrightarrow>
   distinct (map f p) \<and> set p \<subseteq> set arr \<and> length p = k"
proof (induction k arbitrary: arr p)
  case 0
  then show ?case by simp
next
  case (Suc k)
  from Suc.prems(2) obtain i q where i: "i < length arr" and p: "p = arr ! i # q"
    and q: "q \<in> set (k_permutations (take i arr @ drop (Suc i) arr) k)"
    by (auto simp del: upt_Suc)
  let ?rest = "take i arr @ drop (Suc i) arr"
  have arr: "arr = take i arr @ arr ! i # drop (Suc i) arr"
    using i by (simp add: id_take_nth_drop [symmetric])
  have d: "distinct (map f (take i arr @ arr ! i # drop (Suc i) arr))"
    using Suc.prems(1) arr by simp
  then have drest: "distinct (map f ?rest)" and notin: "f (arr ! i) \<notin> f ` set ?rest"
    by auto
  from Suc.IH [OF drest q] have ih: "distinct (map f q)" "set q \<subseteq> set ?rest" "length q = k"
    by auto
  have "set ?rest \<subseteq> set arr"
    by (auto dest: in_set_takeD in_set_dropD)
  with ih notin p i show ?case by auto
qed

lemma k_permutations_complete:
  "length js = k \<Longrightarrow> distinct js \<Longrightarrow> set js \<subseteq> {..<length arr} \<Longrightarrow>
   map ((!) arr) js \<in> set (k_permutations arr k)"
proof (induction k arbitrary: arr js)
  case 0
  then show ?case by simp
next
  case (Suc k)
  from Suc.prems(1) obtain i js' where js: "js = i # js'" and len: "length js' = k"
    by (cases js) auto
  from Suc.prems(2,3) js have i: "i < length arr" and ni: "i \<notin> set js'"
    and d: "distinct js'" and sub: "set js' \<subseteq> {..<length arr}" by auto
  define rest where "rest = take i arr @ drop (Suc i) arr"
  define un where "un = (\<lambda>j. if j < i then j else j - 1)"
  have lrest: "length rest = length arr - 1" using i by (auto simp: rest_def)
  have un_lt: "un j < length rest" if "j \<in> set js'" for j
  proof -
    from that sub ni have "j < length arr" "j \<noteq> i" by auto
    with i lrest show ?thesis unfolding un_def by (cases "j < i") auto
  qed
  have un_nth: "rest ! un j = arr ! j" if "j \<in> set js'" for j
  proof -
    from that sub ni have j: "j < length arr" "j \<noteq> i" by auto
    show ?thesis
    proof (cases "j < i")
      case True
      with i show ?thesis by (simp add: rest_def un_def nth_append)
    next
      case False
      with j have ij: "i < j" by simp
      then have u: "un j = j - 1" and ge: "\<not> j - 1 < i" by (simp_all add: un_def)
      have "length (take i arr) = i" using i by simp
      with ge have "rest ! (j - 1) = drop (Suc i) arr ! (j - 1 - i)"
        unfolding rest_def by (simp add: nth_append)
      also have "\<dots> = arr ! (Suc i + (j - 1 - i))" using j i ij by (intro nth_drop) simp
      also have "Suc i + (j - 1 - i) = j" using ij by simp
      finally show ?thesis using u by simp
    qed
  qed
  have inj: "inj_on un (set js')"
  proof (rule inj_onI)
    fix a b assume a: "a \<in> set js'" and b: "b \<in> set js'" and e: "un a = un b"
    from a b ni have "a \<noteq> i" "b \<noteq> i" by auto
    with e show "a = b" unfolding un_def by (auto split: if_splits)
  qed
  have "map ((!) rest) (map un js') \<in> set (k_permutations rest k)"
  proof (rule Suc.IH)
    show "length (map un js') = k" using len by simp
    show "distinct (map un js')" using d inj by (simp add: distinct_map)
    show "set (map un js') \<subseteq> {..<length rest}" using un_lt by auto
  qed
  moreover have "map ((!) rest) (map un js') = map ((!) arr) js'"
    unfolding map_map by (rule map_cong) (simp_all add: un_nth)
  ultimately have "map ((!) arr) js' \<in> set (k_permutations rest k)" by (simp only:)
  then have "arr ! i # map ((!) arr) js' \<in> set (k_permutations arr (Suc k))"
    using i unfolding rest_def by (auto simp del: upt_Suc)
  with js show ?case by simp
qed

section \<open>Days as association lists\<close>

lemma update_fresh: "k \<notin> fst ` set al \<Longrightarrow> AList.update k v al = al @ [(k, v)]"
  by (induction al) auto

lemma fold_update_enumerate:
  "distinct (map stadium_id perm) \<Longrightarrow> j + length block \<le> length perm \<Longrightarrow>
   fst ` set acc \<subseteq> stadium_id ` set (take j perm) \<Longrightarrow>
   fold (\<lambda>(i, match) day_sched. AList.update (stadium_id (perm ! i)) match day_sched)
        (List.enumerate j block) acc
   = acc @ zip (map stadium_id (drop j perm)) block"
proof (induction block arbitrary: j acc)
  case Nil
  then show ?case by simp
next
  case (Cons m ms)
  from Cons.prems have j: "j < length perm" by simp
  have fresh: "stadium_id (perm ! j) \<notin> fst ` set acc"
  proof
    assume "stadium_id (perm ! j) \<in> fst ` set acc"
    with Cons.prems(3) obtain s where s: "s \<in> set (take j perm)" "stadium_id s = stadium_id (perm ! j)"
      by force
    then obtain t where t: "t < j" "t < length perm" "s = perm ! t"
      by (auto simp: in_set_conv_nth)
    with s Cons.prems(1) j have "t = j"
      by (metis length_map nth_eq_iff_index_eq nth_map)
    with t show False by simp
  qed
  have keys: "fst ` set (acc @ [(stadium_id (perm ! j), m)]) \<subseteq> stadium_id ` set (take (Suc j) perm)"
    using Cons.prems(3) j by (auto simp: take_Suc_conv_app_nth)
  have "fold (\<lambda>(i, match) day_sched. AList.update (stadium_id (perm ! i)) match day_sched)
          (List.enumerate j (m # ms)) acc
        = fold (\<lambda>(i, match) day_sched. AList.update (stadium_id (perm ! i)) match day_sched)
          (List.enumerate (Suc j) ms) (acc @ [(stadium_id (perm ! j), m)])"
    by (simp add: update_fresh [OF fresh])
  also have "\<dots> = (acc @ [(stadium_id (perm ! j), m)]) @ zip (map stadium_id (drop (Suc j) perm)) ms"
    using Cons.prems(1,2) keys by (intro Cons.IH) auto
  also have "\<dots> = acc @ zip (map stadium_id (drop j perm)) (m # ms)"
    using j by (simp add: Cons_nth_drop_Suc [symmetric])
  finally show ?case .
qed

lemma day_sched_of_zip:
  "distinct (map stadium_id perm) \<Longrightarrow> length block \<le> length perm \<Longrightarrow>
   day_sched_of perm block = zip (map stadium_id perm) block"
  using fold_update_enumerate [of perm 0 block "[]"] by (simp add: day_sched_of_def)

section \<open>Stadium identifiers are pairwise different\<close>






section \<open>Validity and size of generated days\<close>







section \<open>The block loop of the optimizer\<close>




lemma gos_loop_no_error:
  "length dp = Suc (length matches) \<Longrightarrow> \<exists>r. gos_loop i dp matches stadiums best ks = Inr r"
proof (induction ks arbitrary: best)
  case Nil
  then show ?case by simp
next
  case (Cons k ks)
  show ?case
  proof (cases "i + k > length matches")
    case True
    then show ?thesis by simp
  next
    case False
    with Cons.prems have "list_get dp (i + k) = Inr (dp ! (i + k))"
      by (simp add: list_get_def)
    with False Cons.IH [OF Cons.prems] show ?thesis
      by (auto simp: Let_def split: option.splits)
  qed
qed




section \<open>The suffix table\<close>











section \<open>The generator returns every injective assignment of a block\<close>

lemma generate_assignments_empty_iff:
  "generate_assignments block stadiums = [] \<longleftrightarrow> length block > length stadiums"
  by (simp add: generate_assignments_def k_permutations_nonempty)

lemma generate_assignments_length:
  "length block \<le> length stadiums \<Longrightarrow>
   length (generate_assignments block stadiums)
     = fact (length stadiums) div fact (length stadiums - length block)"
  by (simp add: generate_assignments_def length_k_permutations)

lemma generate_assignments_member:
  assumes "d \<in> set (generate_assignments block stadiums)"
  shows "\<exists>js. length js = length block \<and> distinct js \<and> set js \<subseteq> {..<length stadiums} \<and>
              d = day_sched_of (map ((!) stadiums) js) block \<and>
              (distinct (map stadium_id stadiums) \<longrightarrow>
                 d = zip (map (\<lambda>j. stadium_id (stadiums ! j)) js) block)"
proof -
  from assms obtain perm where perm: "perm \<in> set (k_permutations stadiums (length block))"
    and d: "d = day_sched_of perm block"
    by (auto simp: generate_assignments_def split: if_splits)
  from k_permutations_positions [OF perm] obtain js where js: "length js = length block"
    "distinct js" "set js \<subseteq> {..<length stadiums}" "perm = map ((!) stadiums) js" by blast
  have "d = zip (map (\<lambda>j. stadium_id (stadiums ! j)) js) block"
    if dist: "distinct (map stadium_id stadiums)"
  proof -
    from k_permutations_distinct [OF dist perm]
    have "distinct (map stadium_id perm)" "length perm = length block" by auto
    then have "d = zip (map stadium_id perm) block"
      using d by (simp add: day_sched_of_zip)
    with js(4) show ?thesis by (simp add: comp_def)
  qed
  with js d show ?thesis by blast
qed

lemma generate_assignments_exhaustive:
  assumes "length js = length block" "distinct js" "set js \<subseteq> {..<length stadiums}"
  shows "day_sched_of (map ((!) stadiums) js) block \<in> set (generate_assignments block stadiums)"
proof -
  from assms(2,3) have "card (set js) \<le> card {..<length stadiums}"
    by (intro card_mono) auto
  with assms(1,2) have le: "length block \<le> length stadiums"
    by (simp add: distinct_card)
  from k_permutations_complete [OF assms]
  have "map ((!) stadiums) js \<in> set (k_permutations stadiums (length block))" .
  with le show ?thesis by (auto simp: generate_assignments_def)
qed

text \<open>
  C4. For every block and every stadium list, \<^verbatim>\<open>generate_assignments\<close> returns the
  empty list exactly when the block is longer than the stadium list; otherwise it returns
  \<open>n! / (n - k)!\<close> days (\<open>n\<close> stadiums, \<open>k\<close> matches). Every returned day is built
  from stadiums at \<open>k\<close> pairwise different positions of the stadium list, by assigning
  the \<open>i\<close>-th match of the block to the id of the \<open>i\<close>-th chosen stadium; when the
  stadium ids are pairwise different, the day is exactly the list of these pairs.
  Conversely, the day of every choice of \<open>k\<close> pairwise different positions is
  returned.
\<close>

theorem generate_assignments_cardinality:
  "(generate_assignments block stadiums = [] \<longleftrightarrow> length block > length stadiums) \<and>
   (length block \<le> length stadiums \<longrightarrow>
      length (generate_assignments block stadiums)
        = fact (length stadiums) div fact (length stadiums - length block)) \<and>
   (\<forall>d \<in> set (generate_assignments block stadiums).
      \<exists>js. length js = length block \<and> distinct js \<and> set js \<subseteq> {..<length stadiums} \<and>
           d = day_sched_of (map ((!) stadiums) js) block \<and>
           (distinct (map stadium_id stadiums) \<longrightarrow>
              d = zip (map (\<lambda>j. stadium_id (stadiums ! j)) js) block)) \<and>
   (\<forall>js. length js = length block \<and> distinct js \<and> set js \<subseteq> {..<length stadiums} \<longrightarrow>
      day_sched_of (map ((!) stadiums) js) block \<in> set (generate_assignments block stadiums))"
  using generate_assignments_empty_iff generate_assignments_length generate_assignments_member
    generate_assignments_exhaustive
  by blast

theorem generate_assignments_cardinality_witness:
  "length (generate_assignments [(1, 2), (3, 4)]
     [\<lparr>stadium_id = ''s1'', stadium_name = ''Stadium 1''\<rparr>,
      \<lparr>stadium_id = ''s2'', stadium_name = ''Stadium 2''\<rparr>,
      \<lparr>stadium_id = ''s3'', stadium_name = ''Stadium 3''\<rparr>]) = 6 \<and>
   [(''s2'', (1, 2)), (''s1'', (3, 4))] \<in> set (generate_assignments [(1, 2), (3, 4)]
     [\<lparr>stadium_id = ''s1'', stadium_name = ''Stadium 1''\<rparr>,
      \<lparr>stadium_id = ''s2'', stadium_name = ''Stadium 2''\<rparr>,
      \<lparr>stadium_id = ''s3'', stadium_name = ''Stadium 3''\<rparr>]) \<and>
   (\<exists>js. length js = 2 \<and> distinct js \<and>
      ([(''s2'', (1, 2)), (''s1'', (3, 4))] :: DaySchedule) =
        zip (map (\<lambda>j. stadium_id
          ([\<lparr>stadium_id = ''s1'', stadium_name = ''Stadium 1''\<rparr>,
            \<lparr>stadium_id = ''s2'', stadium_name = ''Stadium 2''\<rparr>,
            \<lparr>stadium_id = ''s3'', stadium_name = ''Stadium 3''\<rparr>] ! j)) js) [(1, 2), (3, 4)])"
proof -
  let ?st = "[\<lparr>stadium_id = ''s1'', stadium_name = ''Stadium 1''\<rparr>,
      \<lparr>stadium_id = ''s2'', stadium_name = ''Stadium 2''\<rparr>,
      \<lparr>stadium_id = ''s3'', stadium_name = ''Stadium 3''\<rparr>]"
  let ?block = "[(1, 2), (3, 4)] :: Match list"
  let ?d = "[(''s2'', (1, 2)), (''s1'', (3, 4))] :: DaySchedule"
  note inst = generate_assignments_cardinality [of ?block ?st]
  have le: "length ?block \<le> length ?st" by simp
  have "(fact 3 :: nat) div fact (3 - 2) = 6" by (simp add: fact_numeral)
  with le inst have count: "length (generate_assignments ?block ?st) = 6" by simp
  have js: "length [1, 0 :: nat] = length ?block \<and> distinct [1, 0 :: nat] \<and>
      set [1, 0 :: nat] \<subseteq> {..<length ?st}" by simp
  have "day_sched_of (map ((!) ?st) [1, 0]) ?block = ?d"
    by (simp add: day_sched_of_def enumerate_eq_zip numeral_2_eq_2 upt_rec)
  with js inst have mem: "?d \<in> set (generate_assignments ?block ?st)" by metis
  have dist: "distinct (map stadium_id ?st)" by simp
  from inst have "\<forall>d \<in> set (generate_assignments ?block ?st).
      \<exists>js. length js = length ?block \<and> distinct js \<and> set js \<subseteq> {..<length ?st} \<and>
           d = day_sched_of (map ((!) ?st) js) ?block \<and>
           (distinct (map stadium_id ?st) \<longrightarrow>
              d = zip (map (\<lambda>j. stadium_id (?st ! j)) js) ?block)"
    by (rule conjunct2 [THEN conjunct2, THEN conjunct1])
  from this [rule_format, OF mem] dist obtain js where
    js': "length js = length ?block" "distinct js"
    "?d = zip (map (\<lambda>j. stadium_id (?st ! j)) js) ?block" by blast
  from js'(1) have "length js = 2" by simp
  with js'(2,3) have "\<exists>js. length js = 2 \<and> distinct js \<and>
      ?d = zip (map (\<lambda>j. stadium_id (?st ! j)) js) ?block" by (intro exI [of _ js] conjI)
  with count mem show ?thesis by (intro conjI)
qed

section \<open>The scheduler as a whole\<close>




















section \<open>Unfolding the loop of Prim's algorithm\<close>















section \<open>No lookup of the loop fails\<close>













section \<open>The invariant of the loop\<close>

lemma map_of_init_visited:
  "map_of (fold (\<lambda>s v. AList.update s False v) vs al) k =
     (if k \<in> set vs then Some False else map_of al k)"
proof (induction vs arbitrary: al)
  case Nil
  then show ?case by simp
next
  case (Cons a vs)
  show ?case by (simp add: Cons.IH update_conv)
qed

lemma visited_set_init: "visited_set (init_state vs) = {}"
  by (auto simp: visited_set_def init_state_def map_of_init_visited)














section \<open>The visited stadiums are the reachable ones\<close>













section \<open>Connecting sets of keys and the exchange of a crossing edge\<close>




















section \<open>The returned tree is a minimum spanning tree\<close>





















end
